theory Spec2Isabelle
  imports Main "HOL-Library.Multiset"
begin

section \<open>Dynamic values\<close>

text \<open>
  Keys and values of the map are Go values of type \<^verbatim>\<open>interface{}\<close>. A value is
  \<^verbatim>\<open>nil\<close>; a caller value on which Go's \<^verbatim>\<open>==\<close> is an equality (an integer, a string,
  a boolean, a pointer, a float other than NaN: an atom of the type parameter); a float
  NaN, which \<^verbatim>\<open>==\<close> equates with nothing, itself included; or a boxed
  \<^verbatim>\<open>mapElement{key, value}\<close> struct, which is what the list elements of the map hold in
  their \<^verbatim>\<open>Value\<close> field.
\<close>

datatype 'a any = NIL | Atom 'a | NaN | MapElement "'a any" "'a any"

text \<open>
  Go's \<^verbatim>\<open>==\<close> on two interface values: the dynamic types agree and the values are equal;
  structs are compared field by field. It is symmetric and transitive, and reflexive on
  every value that holds no NaN.
\<close>

fun go_eq :: "'a any \<Rightarrow> 'a any \<Rightarrow> bool" where
  "go_eq NIL NIL = True"
| "go_eq (Atom a) (Atom b) = (a = b)"
| "go_eq (MapElement k v) (MapElement k' v') = (go_eq k k' \<and> go_eq v v')"
| "go_eq x y = False"

text \<open>
  The panic that is modelled: a failed type assertion \<^verbatim>\<open>x.(mapElement)\<close>. (A key of
  an unhashable type, a slice or a map or a function, makes the runtime panic in the index
  lookup; such keys are no values of \<open>'a any\<close>.)
\<close>

datatype error = TypeAssertion

definition assert_mapElement :: "'a any \<Rightarrow> error + 'a any \<times> 'a any" where
  "assert_mapElement x =
     (case x of MapElement k v \<Rightarrow> Inr (k, v) | _ \<Rightarrow> Inl TypeAssertion)"

section \<open>The linked list of the standard library\<close>

text \<open>
  \<^verbatim>\<open>container/list\<close> belongs to Go's standard library, not to this package. It is
  modelled by its documented behaviour. An \<^verbatim>\<open>*list.Element\<close> is a reference; a list is
  the sequence of the references linked into it, front first, together with the
  \<^verbatim>\<open>Value\<close> field of every element it has allocated (an element keeps its \<^verbatim>\<open>Value\<close>
  after \<^verbatim>\<open>Remove\<close>) and the number of elements allocated so far, which is the next fresh
  reference.
\<close>

type_synonym ref = nat

record 'a List =
  elems :: "ref list"
  Value :: "ref \<Rightarrow> 'a any"
  allocated :: nat

definition list_New :: "'a List" where
  "list_New = \<lparr>elems = [], Value = (\<lambda>e. NIL), allocated = 0\<rparr>"

text \<open>\<^verbatim>\<open>l.PushFront(v)\<close>: a new element holding \<open>v\<close> at the front; returns the element.\<close>

definition PushFront :: "'a List \<Rightarrow> 'a any \<Rightarrow> 'a List \<times> ref" where
  "PushFront l v =
     (let e = allocated l
      in (l\<lparr>elems := e # elems l, Value := (Value l)(e := v), allocated := Suc e\<rparr>, e))"

text \<open>\<^verbatim>\<open>l.Remove(e)\<close>: unlinks \<open>e\<close> if it is an element of \<open>l\<close>; returns \<^verbatim>\<open>e.Value\<close>.\<close>

definition Remove :: "'a List \<Rightarrow> ref \<Rightarrow> 'a List \<times> 'a any" where
  "Remove l e =
     ((if e \<in> set (elems l) then l\<lparr>elems := remove1 e (elems l)\<rparr> else l), Value l e)"

text \<open>The assignment \<^verbatim>\<open>e.Value = v\<close>.\<close>

definition set_Value :: "'a List \<Rightarrow> ref \<Rightarrow> 'a any \<Rightarrow> 'a List" where
  "set_Value l e v = l\<lparr>Value := (Value l)(e := v)\<rparr>"

text \<open>
  \<^verbatim>\<open>l.Len()\<close>: the number of linked elements, a Go \<^verbatim>\<open>int\<close>; the elements are live
  objects, so their number stays far below \<open>2 ^ 63\<close> and the count never wraps.
\<close>

definition Len :: "'a List \<Rightarrow> int" where
  "Len l = int (length (elems l))"

text \<open>\<^verbatim>\<open>l.Back()\<close>: the last element, or \<^verbatim>\<open>nil\<close> when the list is empty.\<close>

definition Back :: "'a List \<Rightarrow> ref option" where
  "Back l = (if elems l = [] then None else Some (last (elems l)))"

text \<open>
  \<^verbatim>\<open>e.Prev()\<close>: the element linked before \<open>e\<close>, or \<^verbatim>\<open>nil\<close> when \<open>e\<close> is the front
  element or is in no list.
\<close>

fun before :: "ref list \<Rightarrow> ref \<Rightarrow> ref option" where
  "before [] e = None"
| "before [x] e = None"
| "before (x # y # ys) e =
     (if x = e then None else if y = e then Some x else before (y # ys) e)"

definition Prev :: "'a List \<Rightarrow> ref \<Rightarrow> ref option" where
  "Prev l e = before (elems l) e"

text \<open>The position of the first occurrence: the measure of the walk along \<^verbatim>\<open>Prev()\<close>.\<close>

fun index_of :: "ref list \<Rightarrow> ref \<Rightarrow> nat" where
  "index_of [] e = 0"
| "index_of (x # xs) e = (if x = e then 0 else Suc (index_of xs e))"

section \<open>The built-in map\<close>

text \<open>
  A Go \<^verbatim>\<open>map[interface{}]*list.Element\<close> is a collection of entries, searched with
  \<^verbatim>\<open>==\<close> on the keys. It is modelled as an association list: an entry whose key is not \<^verbatim>\<open>==\<close> to
  itself is never found again, and several such entries can be present. The order of the
  list has no meaning: no operation below depends on it when the keys of the entries are
  pairwise not \<^verbatim>\<open>==\<close>, which the operations maintain.
\<close>

type_synonym 'a index = "('a any \<times> ref) list"

text \<open>The lookup \<^verbatim>\<open>v, ok := mp[key]\<close>.\<close>

fun map_lookup :: "'a index \<Rightarrow> 'a any \<Rightarrow> ref option" where
  "map_lookup [] key = None"
| "map_lookup ((k, e) # es) key = (if go_eq k key then Some e else map_lookup es key)"

text \<open>The assignment \<^verbatim>\<open>mp[key] = e\<close>: the entry of the key is updated, or one is added.\<close>

fun map_assign :: "'a index \<Rightarrow> 'a any \<Rightarrow> ref \<Rightarrow> 'a index" where
  "map_assign [] key e = [(key, e)]"
| "map_assign ((k, e') # es) key e =
     (if go_eq k key then (k, e) # es else (k, e') # map_assign es key e)"

text \<open>\<^verbatim>\<open>delete(mp, key)\<close>: the entry of the key, if there is one, is removed.\<close>

definition map_delete :: "'a index \<Rightarrow> 'a any \<Rightarrow> 'a index" where
  "map_delete es key = filter (\<lambda>(k, e). \<not> go_eq k key) es"

text \<open>The keys of a list are pairwise not \<^verbatim>\<open>==\<close>.\<close>

fun go_distinct :: "'a any list \<Rightarrow> bool" where
  "go_distinct [] = True"
| "go_distinct (k # ks) = ((\<forall>k' \<in> set ks. \<not> go_eq k k') \<and> go_distinct ks)"

section \<open>The ordered map\<close>

text \<open>
  The struct \<^verbatim>\<open>Map\<close>: the index \<^verbatim>\<open>mp\<close> from keys to list elements and the list
  \<^verbatim>\<open>dll\<close>. The lock \<^verbatim>\<open>mu\<close> has no sequential content and is left out: every method
  is one atomic step on the pair.
\<close>

record 'a Map =
  mp :: "'a index"
  dll :: "'a List"

definition New :: "'a Map" where
  "New = \<lparr>mp = [], dll = list_New\<rparr>"

definition Get :: "'a Map \<Rightarrow> 'a any \<Rightarrow> error + 'a any \<times> bool" where
  "Get m key =
     (case map_lookup (mp m) key of
        None \<Rightarrow> Inr (NIL, False)
      | Some v \<Rightarrow>
          (case assert_mapElement (Value (dll m) v) of
             Inl err \<Rightarrow> Inl err
           | Inr (k, x) \<Rightarrow> Inr (x, True)))"

definition Put :: "'a Map \<Rightarrow> 'a any \<Rightarrow> 'a any \<Rightarrow> 'a Map" where
  "Put m key val =
     (case map_lookup (mp m) key of
        None \<Rightarrow>
          (let (l, e) = PushFront (dll m) (MapElement key val)
           in m\<lparr>mp := map_assign (mp m) key e, dll := l\<rparr>)
      | Some e \<Rightarrow> m\<lparr>dll := set_Value (dll m) e (MapElement key val)\<rparr>)"

definition Delete :: "'a Map \<Rightarrow> 'a any \<Rightarrow> 'a Map \<times> bool" where
  "Delete m key =
     (case map_lookup (mp m) key of
        None \<Rightarrow> (m, False)
      | Some e \<Rightarrow>
          (let (l, x) = Remove (dll m) e
           in (m\<lparr>mp := map_delete (mp m) key, dll := l\<rparr>, True)))"

definition Length :: "'a Map \<Rightarrow> int" where
  "Length m = Len (dll m)"

definition GetOrPut :: "'a Map \<Rightarrow> 'a any \<Rightarrow> 'a any \<Rightarrow> 'a Map \<times> 'a any \<times> bool" where
  "GetOrPut m key val =
     (case map_lookup (mp m) key of
        Some e \<Rightarrow> (m\<lparr>dll := set_Value (dll m) e (MapElement key val)\<rparr>, val, True)
      | None \<Rightarrow>
          (let (l, e) = PushFront (dll m) (MapElement key val)
           in (m\<lparr>mp := map_assign (mp m) key e, dll := l\<rparr>, val, False)))"

text \<open>
  \<^verbatim>\<open>GetAndDelete\<close> returns \<^verbatim>\<open>e.Value\<close> itself, read after the removal, with no type
  assertion and no selection of the \<^verbatim>\<open>value\<close> field.
\<close>

definition GetAndDelete :: "'a Map \<Rightarrow> 'a any \<Rightarrow> 'a Map \<times> 'a any \<times> bool" where
  "GetAndDelete m key =
     (case map_lookup (mp m) key of
        Some e \<Rightarrow>
          (let (l, x) = Remove (dll m) e
           in (m\<lparr>mp := map_delete (mp m) key, dll := l\<rparr>, Value l e, True))
      | None \<Rightarrow> (m, NIL, False))"

subsection \<open>Traversals\<close>

text \<open>
  The callback \<open>f\<close> acts on a state of the caller, \<open>'s\<close>; it may not call the map. The
  loop of \<^verbatim>\<open>OrderedRange\<close> starts at \<^verbatim>\<open>Back()\<close> and follows \<^verbatim>\<open>Prev()\<close> until
  \<^verbatim>\<open>nil\<close>.
\<close>

function OrderedRange_loop ::
  "'a List \<Rightarrow> ref option \<Rightarrow> ('a any \<Rightarrow> 'a any \<Rightarrow> 's \<Rightarrow> 's) \<Rightarrow> 's \<Rightarrow> error + 's" where
  "OrderedRange_loop l cur f s =
     (case cur of
        None \<Rightarrow> Inr s
      | Some c \<Rightarrow>
          (case assert_mapElement (Value l c) of
             Inl err \<Rightarrow> Inl err
           | Inr (k, v) \<Rightarrow> OrderedRange_loop l (Prev l c) f (f k v s)))"
  by pat_completeness auto
termination
proof -
  have dec: "index_of xs p < index_of xs e" if "before xs e = Some p" for xs e p
    using that by (induction xs e rule: before.induct) (auto split: if_splits)
  show ?thesis
    by (relation "measure (\<lambda>(l, cur, f, s).
          case cur of None \<Rightarrow> 0 | Some c \<Rightarrow> Suc (index_of (elems l) c))")
       (auto simp: Prev_def split: option.splits dest: dec)
qed

definition OrderedRange ::
  "'a Map \<Rightarrow> ('a any \<Rightarrow> 'a any \<Rightarrow> 's \<Rightarrow> 's) \<Rightarrow> 's \<Rightarrow> error + 's" where
  "OrderedRange m f s = OrderedRange_loop (dll m) (Back (dll m)) f s"

text \<open>
  \<^verbatim>\<open>for k, v := range m.mp\<close> enumerates the entries of the index in an order the runtime
  chooses. The enumeration is the parameter \<open>es\<close>: the entries \<open>(k, v)\<close> of \<^verbatim>\<open>m.mp\<close>,
  each once, in any order.
\<close>

definition enumerates :: "'a index \<Rightarrow> 'a Map \<Rightarrow> bool" where
  "enumerates es m \<longleftrightarrow> mset es = mset (mp m)"

fun UnorderedRange_loop ::
  "'a List \<Rightarrow> ('a any \<times> ref) list \<Rightarrow> ('a any \<Rightarrow> 'a any \<Rightarrow> 's \<Rightarrow> 's) \<Rightarrow> 's \<Rightarrow> error + 's" where
  "UnorderedRange_loop l [] f s = Inr s"
| "UnorderedRange_loop l ((k, v) # es) f s =
     (case assert_mapElement (Value l v) of
        Inl err \<Rightarrow> Inl err
      | Inr (k', x) \<Rightarrow> UnorderedRange_loop l es f (f k x s))"

definition UnorderedRange ::
  "'a Map \<Rightarrow> ('a any \<times> ref) list \<Rightarrow> ('a any \<Rightarrow> 'a any \<Rightarrow> 's \<Rightarrow> 's) \<Rightarrow> 's \<Rightarrow> error + 's" where
  "UnorderedRange m es f s = UnorderedRange_loop (dll m) es f s"

text \<open>The callback that records its calls, in order.\<close>

definition visit :: "'a any \<Rightarrow> 'a any \<Rightarrow> ('a any \<times> 'a any) list \<Rightarrow> ('a any \<times> 'a any) list" where
  "visit k v calls = calls @ [(k, v)]"

section \<open>Histories and the representation invariant\<close>

text \<open>
  The fields of \<^verbatim>\<open>Map\<close> are private, so every state a caller can hold is the result of
  a sequence of the four mutating methods applied to \<^verbatim>\<open>New()\<close>.
\<close>

datatype 'a op =
    OpPut "'a any" "'a any"
  | OpDelete "'a any"
  | OpGetOrPut "'a any" "'a any"
  | OpGetAndDelete "'a any"

fun apply_op :: "'a Map \<Rightarrow> 'a op \<Rightarrow> 'a Map" where
  "apply_op m (OpPut k v) = Put m k v"
| "apply_op m (OpDelete k) = fst (Delete m k)"
| "apply_op m (OpGetOrPut k v) = fst (GetOrPut m k v)"
| "apply_op m (OpGetAndDelete k) = fst (GetAndDelete m k)"

definition run :: "'a op list \<Rightarrow> 'a Map" where
  "run ops = foldl apply_op New ops"

text \<open>A sequence of \<^verbatim>\<open>Put\<close> calls on a new map.\<close>

definition puts :: "('a any \<times> 'a any) list \<Rightarrow> 'a Map" where
  "puts kvs = foldl (\<lambda>m (k, v). Put m k v) New kvs"

text \<open>
  The invariant: the linked elements are pairwise different and allocated; the keys of the
  index entries are pairwise not \<^verbatim>\<open>==\<close>; the index entries point to pairwise different
  elements, which are exactly the linked ones; the element of an entry holds a
  \<^verbatim>\<open>mapElement\<close> with the key of the entry.
\<close>

definition Map_inv :: "'a Map \<Rightarrow> bool" where
  "Map_inv m \<longleftrightarrow>
     distinct (elems (dll m)) \<and>
     (\<forall>e \<in> set (elems (dll m)). e < allocated (dll m)) \<and>
     go_distinct (map fst (mp m)) \<and>
     distinct (map snd (mp m)) \<and>
     set (map snd (mp m)) = set (elems (dll m)) \<and>
     (\<forall>(k, e) \<in> set (mp m). \<exists>v. Value (dll m) e = MapElement k v)"

text \<open>The pair an element holds, and the pairs of the list read from the back.\<close>

definition entry :: "'a List \<Rightarrow> ref \<Rightarrow> 'a any \<times> 'a any" where
  "entry l e = (case Value l e of MapElement k v \<Rightarrow> (k, v) | _ \<Rightarrow> (NIL, NIL))"

definition entries :: "'a Map \<Rightarrow> ('a any \<times> 'a any) list" where
  "entries m = map (entry (dll m)) (rev (elems (dll m)))"

text \<open>Caller values for the examples: strings and integers.\<close>

datatype basic = Str string | Num int

section \<open>Evaluation rules\<close>

lemma OrderedRange_loop_None: "OrderedRange_loop l None f s = Inr s"
  by simp

lemma OrderedRange_loop_Some:
  "OrderedRange_loop l (Some c) f s =
     (case assert_mapElement (Value l c) of
        Inl err \<Rightarrow> Inl err
      | Inr (k, v) \<Rightarrow> OrderedRange_loop l (Prev l c) f (f k v s))"
  by simp

declare OrderedRange_loop.simps [simp del]

lemmas eval_defs = run_def puts_def New_def list_New_def Put_def GetOrPut_def GetAndDelete_def
  Delete_def Get_def Length_def Len_def PushFront_def Remove_def set_Value_def OrderedRange_def
  Back_def Prev_def assert_mapElement_def visit_def UnorderedRange_def OrderedRange_loop_None
  OrderedRange_loop_Some enumerates_def map_delete_def

section \<open>Equality of keys and the index\<close>

lemma go_eq_imp_eq: "go_eq a b \<Longrightarrow> a = b"
  by (induction a b rule: go_eq.induct) auto

lemma go_eq_sym: "go_eq a b \<Longrightarrow> go_eq b a"
  by (induction a b rule: go_eq.induct) auto


lemma go_eq_refl_right: "go_eq a b \<Longrightarrow> go_eq b b"
  using go_eq_imp_eq by fastforce

lemma map_lookup_None: "map_lookup es key = None \<longleftrightarrow> (\<forall>(k, e) \<in> set es. \<not> go_eq k key)"
  by (induction es key rule: map_lookup.induct) auto

lemma map_lookup_Some:
  "map_lookup es key = Some e \<Longrightarrow> (key, e) \<in> set es \<and> go_eq key key"
proof (induction es key rule: map_lookup.induct)
  case (1 key)
  then show ?case by simp
next
  case (2 k e' es key)
  show ?case
  proof (cases "go_eq k key")
    case True
    then have "k = key" "go_eq key key" by (auto dest: go_eq_imp_eq go_eq_refl_right)
    then show ?thesis using 2 True by simp
  next
    case False
    then show ?thesis using 2 by simp
  qed
qed

lemma map_lookup_irreflexive: "\<not> go_eq key key \<Longrightarrow> map_lookup es key = None"
  using map_lookup_Some by (cases "map_lookup es key") auto

lemma map_lookup_mem:
  "go_distinct (map fst es) \<Longrightarrow> (key, e) \<in> set es \<Longrightarrow> go_eq key key \<Longrightarrow>
   map_lookup es key = Some e"
proof (induction es)
  case Nil
  then show ?case by simp
next
  case (Cons p es)
  obtain k e' where p: "p = (k, e')" by (cases p)
  show ?case
  proof (cases "go_eq k key")
    case True
    then have k: "k = key" by (rule go_eq_imp_eq)
    have "(key, e) \<notin> set es"
    proof
      assume "(key, e) \<in> set es"
      then have "key \<in> set (map fst es)" by force
      then show False using Cons.prems(1,3) unfolding p k by auto
    qed
    then show ?thesis using Cons.prems(2) True unfolding p k by simp
  next
    case False
    then have "(key, e) \<in> set es" using Cons.prems(2,3) unfolding p by auto
    then show ?thesis using Cons.IH Cons.prems(1,3) False unfolding p by simp
  qed
qed

lemma map_assign_absent: "map_lookup es key = None \<Longrightarrow> map_assign es key e = es @ [(key, e)]"
  by (induction es key rule: map_lookup.induct) (auto split: if_splits)

lemma map_lookup_append:
  "map_lookup (es @ es') key =
     (case map_lookup es key of None \<Rightarrow> map_lookup es' key | Some e \<Rightarrow> Some e)"
  by (induction es key rule: map_lookup.induct) auto

lemma map_delete_absent: "map_lookup es key = None \<Longrightarrow> map_delete es key = es"
  unfolding map_delete_def map_lookup_None by (induction es) auto

lemma map_lookup_delete_same: "map_lookup (map_delete es key) key = None"
  unfolding map_lookup_None map_delete_def by auto

lemma map_lookup_delete_other:
  "\<not> go_eq key' key \<Longrightarrow> map_lookup (map_delete es key) key' = map_lookup es key'"
proof (induction es)
  case Nil
  then show ?case by (simp add: map_delete_def)
next
  case (Cons p es)
  obtain k e where p: "p = (k, e)" by (cases p)
  have "\<not> go_eq k key'" if "go_eq k key"
  proof
    assume "go_eq k key'"
    then have "key' = k" "go_eq key' key'" by (auto dest: go_eq_imp_eq go_eq_refl_right)
    then show False using that Cons.prems by simp
  qed
  then show ?case using Cons unfolding p by (auto simp: map_delete_def)
qed

lemma go_distinct_snoc:
  "go_distinct (ks @ [k]) \<longleftrightarrow> go_distinct ks \<and> (\<forall>k' \<in> set ks. \<not> go_eq k' k)"
  by (induction ks) (auto dest: go_eq_sym)

lemma go_distinct_filter: "go_distinct ks \<Longrightarrow> go_distinct (filter P ks)"
  by (induction ks) auto



lemma distinct_imp_go_distinct: "distinct ks \<Longrightarrow> go_distinct ks"
  by (induction ks) (auto dest: go_eq_imp_eq)

section \<open>The invariant holds in every reachable state\<close>

lemma Map_inv_New: "Map_inv New"
  by (simp add: Map_inv_def New_def list_New_def)

lemma Map_inv_entry:
  "Map_inv m \<Longrightarrow> (k, e) \<in> set (mp m) \<Longrightarrow>
   e \<in> set (elems (dll m)) \<and> (\<exists>v. Value (dll m) e = MapElement k v)"
  unfolding Map_inv_def by force

lemma Map_inv_key:
  assumes "Map_inv m" "map_lookup (mp m) k = Some e"
  shows "(k, e) \<in> set (mp m) \<and> go_eq k k \<and> e \<in> set (elems (dll m)) \<and>
         (\<exists>v. Value (dll m) e = MapElement k v)"
  using map_lookup_Some [OF assms(2)] Map_inv_entry [OF assms(1)] by blast

lemma Map_inv_node:
  assumes "Map_inv m" "e \<in> set (elems (dll m))"
  shows "\<exists>k v. (k, e) \<in> set (mp m) \<and> Value (dll m) e = MapElement k v"
proof -
  have "e \<in> snd ` set (mp m)" using assms unfolding Map_inv_def by simp
  then obtain k where "(k, e) \<in> set (mp m)" by force
  then show ?thesis using Map_inv_entry [OF assms(1)] by blast
qed

lemma Map_inv_snd_inj:
  assumes "Map_inv m" "(k, e) \<in> set (mp m)" "(k', e) \<in> set (mp m)"
  shows "k' = k"
proof -
  have "inj_on snd (set (mp m))" using assms(1) by (simp add: Map_inv_def distinct_map)
  moreover have "snd (k', e) = snd (k, e)" by simp
  ultimately have "(k', e) = (k, e)" using assms(3,2) by (rule inj_onD)
  then show ?thesis by simp
qed

lemma Map_inv_found:
  assumes "Map_inv m" "(k, e) \<in> set (mp m)" "go_eq k k"
  shows "map_lookup (mp m) k = Some e"
  using assms by (intro map_lookup_mem) (simp_all add: Map_inv_def)

lemma Map_inv_fresh: "Map_inv m \<Longrightarrow> allocated (dll m) \<notin> set (elems (dll m))"
  unfolding Map_inv_def by auto

lemma Put_absent:
  "map_lookup (mp m) k = None \<Longrightarrow>
   Put m k v = \<lparr>mp = mp m @ [(k, allocated (dll m))],
                dll = \<lparr>elems = allocated (dll m) # elems (dll m),
                        Value = (Value (dll m))(allocated (dll m) := MapElement k v),
                        allocated = Suc (allocated (dll m))\<rparr>\<rparr>"
  by (simp add: Put_def PushFront_def Let_def map_assign_absent)

lemma Put_present:
  "map_lookup (mp m) k = Some e \<Longrightarrow>
   Put m k v = \<lparr>mp = mp m,
                dll = \<lparr>elems = elems (dll m),
                        Value = (Value (dll m))(e := MapElement k v),
                        allocated = allocated (dll m)\<rparr>\<rparr>"
  by (simp add: Put_def set_Value_def)

lemma GetOrPut_state: "fst (GetOrPut m k v) = Put m k v"
  by (simp add: GetOrPut_def Put_def split: option.splits prod.splits)

lemma Delete_absent: "map_lookup (mp m) k = None \<Longrightarrow> Delete m k = (m, False)"
  by (simp add: Delete_def)

lemma Delete_present:
  "map_lookup (mp m) k = Some e \<Longrightarrow>
   Delete m k = (\<lparr>mp = map_delete (mp m) k,
                  dll = \<lparr>elems = (if e \<in> set (elems (dll m)) then remove1 e (elems (dll m)) else elems (dll m)),
                          Value = Value (dll m),
                          allocated = allocated (dll m)\<rparr>\<rparr>, True)"
  by (simp add: Delete_def Remove_def)

lemma GetAndDelete_state: "fst (GetAndDelete m k) = fst (Delete m k)"
  by (simp add: GetAndDelete_def Delete_def split: option.splits prod.splits)

lemma map_delete_present:
  assumes "Map_inv m" "map_lookup (mp m) k = Some e"
  shows "set (map_delete (mp m) k) = set (mp m) - {(k, e)}"
proof -
  have k: "(k, e) \<in> set (mp m)" "go_eq k k" using Map_inv_key [OF assms] by auto
  have "go_eq k' k \<longleftrightarrow> (k', e') = (k, e)" if "(k', e') \<in> set (mp m)" for k' e'
  proof
    assume "go_eq k' k"
    then have "k' = k" by (rule go_eq_imp_eq)
    then have "map_lookup (mp m) k = Some e'" using that k(2) Map_inv_found [OF assms(1)] by blast
    then show "(k', e') = (k, e)" using assms(2) \<open>k' = k\<close> by simp
  next
    assume "(k', e') = (k, e)"
    then show "go_eq k' k" using k(2) by simp
  qed
  then show ?thesis unfolding map_delete_def by auto
qed

lemma Map_inv_Put:
  assumes "Map_inv m" shows "Map_inv (Put m k v)"
proof (cases "map_lookup (mp m) k")
  case None
  let ?a = "allocated (dll m)"
  let ?m' = "\<lparr>mp = mp m @ [(k, ?a)],
             dll = \<lparr>elems = ?a # elems (dll m), Value = (Value (dll m))(?a := MapElement k v),
                     allocated = Suc ?a\<rparr>\<rparr>"
  have fresh: "?a \<notin> set (elems (dll m))" using assms by (rule Map_inv_fresh)
  have d: "distinct (elems (dll m))"
    and lt: "\<And>e. e \<in> set (elems (dll m)) \<Longrightarrow> e < ?a"
    and gd: "go_distinct (map fst (mp m))"
    and ds: "distinct (map snd (mp m))"
    and se: "set (map snd (mp m)) = set (elems (dll m))"
    using assms unfolding Map_inv_def by auto
  have ne: "\<And>k' e'. (k', e') \<in> set (mp m) \<Longrightarrow> \<not> go_eq k' k"
    using None unfolding map_lookup_None by blast
  have "distinct (elems (dll ?m'))" using d fresh by simp
  moreover have "\<forall>e\<in>set (elems (dll ?m')). e < allocated (dll ?m')"
    using lt by (auto simp: less_Suc_eq)
  moreover have "go_distinct (map fst (mp ?m'))"
    using gd ne by (auto simp: go_distinct_snoc)
  moreover have "distinct (map snd (mp ?m'))"
    using ds se fresh by simp
  moreover have "set (map snd (mp ?m')) = set (elems (dll ?m'))"
    using se by auto
  moreover have "\<forall>(k', e') \<in> set (mp ?m'). \<exists>x. Value (dll ?m') e' = MapElement k' x"
  proof (intro ballI, clarify)
    fix k' e' assume "(k', e') \<in> set (mp ?m')"
    then consider "(k', e') = (k, ?a)" | "(k', e') \<in> set (mp m)" by auto
    then show "\<exists>x. Value (dll ?m') e' = MapElement k' x"
    proof cases
      case 1
      then show ?thesis by simp
    next
      case 2
      then have "e' \<noteq> ?a" "\<exists>x. Value (dll m) e' = MapElement k' x"
        using Map_inv_entry [OF assms 2] fresh by auto
      then show ?thesis by simp
    qed
  qed
  ultimately have "Map_inv ?m'" unfolding Map_inv_def by blast
  then show ?thesis unfolding Put_absent [OF None] by simp
next
  case (Some e)
  let ?m' = "\<lparr>mp = mp m,
             dll = \<lparr>elems = elems (dll m), Value = (Value (dll m))(e := MapElement k v),
                     allocated = allocated (dll m)\<rparr>\<rparr>"
  have ke: "(k, e) \<in> set (mp m)" using Map_inv_key [OF assms Some] by simp
  have "\<forall>(k', e') \<in> set (mp ?m'). \<exists>x. Value (dll ?m') e' = MapElement k' x"
  proof (intro ballI, clarify)
    fix k' e' assume mem: "(k', e') \<in> set (mp ?m')"
    show "\<exists>x. Value (dll ?m') e' = MapElement k' x"
    proof (cases "e' = e")
      case True
      then have "k' = k" using mem ke Map_inv_snd_inj [OF assms, of k e k'] by simp
      then show ?thesis using True by simp
    next
      case False
      then show ?thesis using mem Map_inv_entry [OF assms, of k' e'] by simp
    qed
  qed
  then have "Map_inv ?m'" using assms unfolding Map_inv_def by simp
  then show ?thesis unfolding Put_present [OF Some] by simp
qed

lemma Map_inv_Delete:
  assumes "Map_inv m" shows "Map_inv (fst (Delete m k))"
proof (cases "map_lookup (mp m) k")
  case None
  then show ?thesis using assms by (simp add: Delete_absent)
next
  case (Some e)
  let ?m' = "\<lparr>mp = map_delete (mp m) k,
              dll = \<lparr>elems = (if e \<in> set (elems (dll m)) then remove1 e (elems (dll m)) else elems (dll m)),
                      Value = Value (dll m),
                      allocated = allocated (dll m)\<rparr>\<rparr>"
  have ke: "(k, e) \<in> set (mp m)" and mem: "e \<in> set (elems (dll m))"
    using Map_inv_key [OF assms Some] by auto
  have d: "distinct (elems (dll m))"
    and lt: "\<And>e. e \<in> set (elems (dll m)) \<Longrightarrow> e < allocated (dll m)"
    and gd: "go_distinct (map fst (mp m))"
    and ds: "distinct (map snd (mp m))"
    and se: "set (map snd (mp m)) = set (elems (dll m))"
    using assms unfolding Map_inv_def by auto
  have sm: "set (mp ?m') = set (mp m) - {(k, e)}"
    using map_delete_present [OF assms Some] by simp
  have el: "set (elems (dll ?m')) = set (elems (dll m)) - {e}"
    using d mem by (simp add: set_remove1_eq)
  have inj: "inj_on snd (set (mp m))" using ds by (simp add: distinct_map)
  have "distinct (elems (dll ?m'))" using d by simp
  moreover have "\<forall>e'\<in>set (elems (dll ?m')). e' < allocated (dll ?m')"
    unfolding el using lt by simp
  moreover have "go_distinct (map fst (mp ?m'))"
  proof -
    have "map fst (map_delete es k) = filter (\<lambda>k'. \<not> go_eq k' k) (map fst es)" for es
      by (induction es) (auto simp: map_delete_def)
    then show ?thesis using gd by (simp add: go_distinct_filter)
  qed
  moreover have "distinct (map snd (mp ?m'))"
    using ds by (simp add: map_delete_def distinct_map_filter)
  moreover have "set (map snd (mp ?m')) = set (elems (dll ?m'))"
  proof -
    have "snd ` (set (mp m) - {(k, e)}) = snd ` set (mp m) - {e}"
    proof (intro set_eqI iffI)
      fix x assume "x \<in> snd ` (set (mp m) - {(k, e)})"
      then obtain p where p: "p \<in> set (mp m)" "p \<noteq> (k, e)" "x = snd p" by blast
      obtain k' where "p = (k', x)" using p(3) by (cases p) simp
      then have k': "(k', x) \<in> set (mp m)" "(k', x) \<noteq> (k, e)" using p by simp_all
      then have "x \<noteq> e" using ke Map_inv_snd_inj [OF assms, of k e k'] by auto
      then show "x \<in> snd ` set (mp m) - {e}" using k'(1) by force
    next
      fix x assume "x \<in> snd ` set (mp m) - {e}"
      then obtain p where p: "p \<in> set (mp m)" "x = snd p" "x \<noteq> e" by blast
      then have "p \<in> set (mp m) - {(k, e)}" by auto
      then show "x \<in> snd ` (set (mp m) - {(k, e)})" using p(2) by blast
    qed
    then show ?thesis using sm el se by simp
  qed
  moreover have "\<forall>(k', e') \<in> set (mp ?m'). \<exists>x. Value (dll ?m') e' = MapElement k' x"
    using sm Map_inv_entry [OF assms] by auto
  ultimately have "Map_inv ?m'" unfolding Map_inv_def by blast
  then show ?thesis unfolding Delete_present [OF Some] by simp
qed

lemma Map_inv_apply_op: "Map_inv m \<Longrightarrow> Map_inv (apply_op m x)"
  by (cases x) (simp_all add: Map_inv_Put Map_inv_Delete GetOrPut_state GetAndDelete_state)

lemma Map_inv_foldl: "Map_inv m \<Longrightarrow> Map_inv (foldl apply_op m ops)"
  by (induction ops arbitrary: m) (simp_all add: Map_inv_apply_op)

lemma Map_inv_run: "Map_inv (run ops)"
  by (simp add: run_def Map_inv_foldl Map_inv_New)

section \<open>The traversals\<close>

lemma before_front: "before (c # ys) c = None"
  by (cases ys) simp_all

lemma before_append: "c \<notin> set xs \<Longrightarrow> x \<noteq> c \<Longrightarrow> before (xs @ x # c # ys) c = Some x"
proof (induction xs)
  case Nil
  then show ?case by simp
next
  case (Cons a xs)
  then show ?case by (cases xs) auto
qed

lemma assert_mapElement_entry:
  "Value l e = MapElement k v \<Longrightarrow> assert_mapElement (Value l e) = Inr (entry l e)"
  by (simp add: assert_mapElement_def entry_def)

lemma OrderedRange_loop_walk:
  assumes "elems l = xs @ c # ys" "distinct (elems l)"
    and "\<forall>e \<in> set (xs @ [c]). \<exists>k v. Value l e = MapElement k v"
  shows "OrderedRange_loop l (Some c) f s =
         Inr (foldl (\<lambda>s (k, v). f k v s) s (map (entry l) (c # rev xs)))"
  using assms
proof (induction xs arbitrary: c ys s rule: rev_induct)
  case Nil
  then obtain k v where kv: "Value l c = MapElement k v" by auto
  have "Prev l c = None" using Nil by (simp add: Prev_def before_front)
  then show ?case
    using kv by (simp add: OrderedRange_loop_Some OrderedRange_loop_None assert_mapElement_def entry_def)
next
  case (snoc x xs)
  then obtain k v where kv: "Value l c = MapElement k v" by auto
  have el: "elems l = xs @ x # c # ys" using snoc.prems by simp
  have "c \<notin> set xs" "x \<noteq> c" using snoc.prems(2) unfolding el by auto
  then have prev: "Prev l c = Some x" unfolding Prev_def el by (rule before_append)
  have "OrderedRange_loop l (Some x) f (f k v s) =
        Inr (foldl (\<lambda>s (k, v). f k v s) (f k v s) (map (entry l) (x # rev xs)))"
    using snoc.prems by (intro snoc.IH [of x "c # ys"]) (auto simp: el)
  moreover have "entry l c = (k, v)" using kv by (simp add: entry_def)
  ultimately show ?case
    using kv prev by (simp add: OrderedRange_loop_Some [of l c] assert_mapElement_def)
qed

lemma Map_inv_Values:
  "Map_inv m \<Longrightarrow> e \<in> set (elems (dll m)) \<Longrightarrow> \<exists>k v. Value (dll m) e = MapElement k v"
  using Map_inv_node by blast

lemma OrderedRange_entries:
  assumes "Map_inv m"
  shows "OrderedRange m f s = Inr (foldl (\<lambda>s (k, v). f k v s) s (entries m))"
proof (cases "elems (dll m)" rule: rev_cases)
  case Nil
  then show ?thesis by (simp add: OrderedRange_def Back_def entries_def OrderedRange_loop_None)
next
  case (snoc xs c)
  have d: "distinct (elems (dll m))" using assms by (simp add: Map_inv_def)
  have "OrderedRange_loop (dll m) (Some c) f s =
        Inr (foldl (\<lambda>s (k, v). f k v s) s (map (entry (dll m)) (c # rev xs)))"
    using snoc d Map_inv_Values [OF assms]
    by (intro OrderedRange_loop_walk [of _ xs c "[]"]) auto
  then show ?thesis using snoc by (simp add: OrderedRange_def Back_def entries_def)
qed

lemma foldl_visit: "foldl (\<lambda>s (k, v). visit k v s) s xs = s @ xs"
  by (induction xs arbitrary: s) (auto simp: visit_def)

lemma OrderedRange_visit: "Map_inv m \<Longrightarrow> OrderedRange m visit [] = Inr (entries m)"
  by (simp add: OrderedRange_entries foldl_visit)









lemma entries_set:
  assumes "Map_inv m"
  shows "set (entries m) = {(k, v). \<exists>e. (k, e) \<in> set (mp m) \<and> Value (dll m) e = MapElement k v}"
proof -
  have "entry (dll m) ` set (elems (dll m)) =
        {(k, v). \<exists>e. (k, e) \<in> set (mp m) \<and> Value (dll m) e = MapElement k v}" (is "?L = ?R")
  proof (intro set_eqI iffI)
    fix p assume "p \<in> ?L"
    then obtain e where e: "e \<in> set (elems (dll m))" "p = entry (dll m) e" by auto
    from Map_inv_node [OF assms e(1)] obtain k v
      where "(k, e) \<in> set (mp m)" "Value (dll m) e = MapElement k v" by blast
    then show "p \<in> ?R" using e by (auto simp: entry_def)
  next
    fix p assume "p \<in> ?R"
    then obtain k v e where "p = (k, v)" "(k, e) \<in> set (mp m)" "Value (dll m) e = MapElement k v" by auto
    moreover then have "e \<in> set (elems (dll m))" using Map_inv_entry [OF assms] by blast
    ultimately show "p \<in> ?L" by (force simp: entry_def)
  qed
  then show ?thesis by (simp add: entries_def)
qed





section \<open>Effects of the operations\<close>

lemma Get_absent: "map_lookup (mp m) k = None \<Longrightarrow> Get m k = Inr (NIL, False)"
  by (simp add: Get_def)

lemma Get_irreflexive: "\<not> go_eq k k \<Longrightarrow> Get m k = Inr (NIL, False)"
  by (simp add: Get_absent map_lookup_irreflexive)

lemma Get_present:
  "map_lookup (mp m) k = Some e \<Longrightarrow> Value (dll m) e = MapElement k' v \<Longrightarrow> Get m k = Inr (v, True)"
  by (simp add: Get_def assert_mapElement_def)

lemma Get_Put_same:
  assumes "go_eq k k"
  shows "Get (Put m k v) k = Inr (v, True)"
proof (cases "map_lookup (mp m) k")
  case None
  show ?thesis
    unfolding Put_absent [OF None] using None assms
    by (simp add: Get_def assert_mapElement_def map_lookup_append)
next
  case (Some e)
  show ?thesis unfolding Put_present [OF Some] using Some by (simp add: Get_def assert_mapElement_def)
qed

lemma map_lookup_Put_other:
  assumes "\<not> go_eq k' k"
  shows "map_lookup (mp (Put m k v)) k' = map_lookup (mp m) k'"
proof (cases "map_lookup (mp m) k")
  case None
  have "\<not> go_eq k k'" using assms go_eq_sym by blast
  then show ?thesis
    unfolding Put_absent [OF None] by (simp add: map_lookup_append split: option.splits)
next
  case (Some e)
  show ?thesis unfolding Put_present [OF Some] by simp
qed

lemma Get_Put_other:
  assumes "Map_inv m" "\<not> go_eq k' k"
  shows "Get (Put m k v) k' = Get m k'"
proof (cases "map_lookup (mp m) k")
  case None
  have lk: "map_lookup (mp (Put m k v)) k' = map_lookup (mp m) k'"
    using assms(2) by (rule map_lookup_Put_other)
  have "\<And>e'. map_lookup (mp m) k' = Some e' \<Longrightarrow> e' \<noteq> allocated (dll m)"
    using Map_inv_key [OF assms(1)] Map_inv_fresh [OF assms(1)] by blast
  then show ?thesis
    using lk unfolding Get_def
    by (cases "map_lookup (mp m) k'") (simp_all add: Put_absent [OF None])
next
  case (Some e)
  have ke: "(k, e) \<in> set (mp m)" "go_eq k k" using Map_inv_key [OF assms(1) Some] by auto
  have "e' \<noteq> e" if "map_lookup (mp m) k' = Some e'" for e'
  proof
    assume "e' = e"
    then have "(k', e) \<in> set (mp m)" using Map_inv_key [OF assms(1) that] by simp
    then have "k' = k" using Map_inv_snd_inj [OF assms(1) ke(1)] by blast
    then show False using assms(2) ke(2) by simp
  qed
  then show ?thesis
    unfolding Put_present [OF Some] by (auto simp: Get_def split: option.splits)
qed

lemma entries_Put_absent:
  assumes "Map_inv m" "map_lookup (mp m) k = None"
  shows "entries (Put m k v) = entries m @ [(k, v)]"
proof -
  let ?a = "allocated (dll m)"
  let ?l = "\<lparr>elems = ?a # elems (dll m), Value = (Value (dll m))(?a := MapElement k v),
            allocated = Suc ?a\<rparr>"
  have "\<And>e. e \<in> set (elems (dll m)) \<Longrightarrow> entry ?l e = entry (dll m) e"
    using Map_inv_fresh [OF assms(1)] by (auto simp: entry_def)
  then have "map (entry ?l) (rev (elems (dll m))) = map (entry (dll m)) (rev (elems (dll m)))"
    by (intro map_cong) auto
  moreover have "entry ?l ?a = (k, v)" by (simp add: entry_def)
  ultimately show ?thesis
    unfolding Put_absent [OF assms(2)] by (simp add: entries_def)
qed

lemma entries_Put_present:
  assumes "Map_inv m" "map_lookup (mp m) k = Some e"
  shows "entries (Put m k v) = map (\<lambda>(k', x). if k' = k then (k, v) else (k', x)) (entries m)"
proof -
  let ?l = "\<lparr>elems = elems (dll m), Value = (Value (dll m))(e := MapElement k v),
            allocated = allocated (dll m)\<rparr>"
  have ke: "(k, e) \<in> set (mp m)" "go_eq k k" using Map_inv_key [OF assms] by auto
  have "entry ?l e' = (case entry (dll m) e' of (k', x) \<Rightarrow> if k' = k then (k, v) else (k', x))"
    if "e' \<in> set (elems (dll m))" for e'
  proof -
    from Map_inv_node [OF assms(1) that] obtain k' x
      where k': "(k', e') \<in> set (mp m)" "Value (dll m) e' = MapElement k' x" by blast
    show ?thesis
    proof (cases "e' = e")
      case True
      then have "k' = k" using k'(1) Map_inv_snd_inj [OF assms(1) ke(1), of k'] by simp
      then show ?thesis using True k'(2) by (simp add: entry_def)
    next
      case False
      have "k' \<noteq> k"
      proof
        assume "k' = k"
        then have "map_lookup (mp m) k = Some e'"
          using k'(1) ke(2) Map_inv_found [OF assms(1)] by blast
        then show False using assms(2) False by simp
      qed
      then show ?thesis using False k'(2) by (simp add: entry_def)
    qed
  qed
  then have "map (entry ?l) (rev (elems (dll m))) =
             map (\<lambda>e'. case entry (dll m) e' of (k', x) \<Rightarrow> if k' = k then (k, v) else (k', x))
                 (rev (elems (dll m)))"
    by (intro map_cong) auto
  then show ?thesis
    unfolding Put_present [OF assms(2)] by (simp add: entries_def comp_def)
qed

lemma GetAndDelete_present:
  assumes "Map_inv m" "map_lookup (mp m) k = Some e"
  shows "\<exists>v. Get m k = Inr (v, True) \<and> snd (GetAndDelete m k) = (MapElement k v, True)"
proof -
  from Map_inv_key [OF assms] obtain v where v: "Value (dll m) e = MapElement k v" by blast
  have "snd (GetAndDelete m k) = (MapElement k v, True)"
    using assms(2) v by (simp add: GetAndDelete_def Remove_def)
  then show ?thesis using Get_present [OF assms(2) v] by blast
qed

lemma Length_Put:
  "Length (Put m k v) = (if map_lookup (mp m) k = None then Length m + 1 else Length m)"
  by (cases "map_lookup (mp m) k") (simp_all add: Put_absent Put_present Length_def Len_def)

lemma Length_Delete_present:
  assumes "Map_inv m" "map_lookup (mp m) k = Some e"
  shows "Length (fst (Delete m k)) = Length m - 1"
proof -
  have mem: "e \<in> set (elems (dll m))" using Map_inv_key [OF assms] by simp
  then have "0 < length (elems (dll m))" by (rule length_pos_if_in_set)
  then have "int (length (elems (dll m)) - 1) = int (length (elems (dll m))) - 1" by linarith
  then show ?thesis
    using mem by (simp add: Delete_present [OF assms(2)] Length_def Len_def length_remove1)
qed

lemma NaN_keys_example:
  "Length (run [OpPut NaN (Atom (Num 1)), OpPut NaN (Atom (Num 2))] :: basic Map) = 2 \<and>
   OrderedRange (run [OpPut NaN (Atom (Num 1)), OpPut NaN (Atom (Num 2))] :: basic Map) visit [] =
     Inr [(NaN, Atom (Num 1)), (NaN, Atom (Num 2))] \<and>
   Delete (run [OpPut NaN (Atom (Num 1)), OpPut NaN (Atom (Num 2))] :: basic Map) NaN =
     (run [OpPut NaN (Atom (Num 1)), OpPut NaN (Atom (Num 2))], False)"
  by (simp add: eval_defs)

lemma GetOrPut_absent:
  "map_lookup (mp m) k = None \<Longrightarrow> GetOrPut m k v = (Put m k v, v, False)"
  by (simp add: GetOrPut_def Put_def split: prod.splits)

lemma GetOrPut_present:
  "map_lookup (mp m) k = Some e \<Longrightarrow> GetOrPut m k v = (Put m k v, v, True)"
  by (simp add: GetOrPut_def Put_def)

lemma puts_snoc: "puts (kvs @ [(k, v)]) = Put (puts kvs) k v"
  by (simp add: puts_def)

lemma puts_inv:
  "go_distinct (map fst kvs) \<Longrightarrow>
   Map_inv (puts kvs) \<and> map fst (mp (puts kvs)) = map fst kvs \<and> entries (puts kvs) = kvs"
proof (induction kvs rule: rev_induct)
  case Nil
  then show ?case
    by (simp add: puts_def Map_inv_New) (simp add: New_def list_New_def entries_def)
next
  case (snoc p kvs)
  obtain k v where p: "p = (k, v)" by (cases p)
  from snoc.prems have gd: "go_distinct (map fst kvs)" "\<forall>k' \<in> set (map fst kvs). \<not> go_eq k' k"
    unfolding p by (simp_all add: go_distinct_snoc)
  from snoc.IH [OF gd(1)] have IH: "Map_inv (puts kvs)" "map fst (mp (puts kvs)) = map fst kvs"
    "entries (puts kvs) = kvs" by auto
  have "\<forall>(k', e) \<in> set (mp (puts kvs)). \<not> go_eq k' k"
  proof (intro ballI, clarify)
    fix k' e assume "(k', e) \<in> set (mp (puts kvs))" "go_eq k' k"
    then have "k' \<in> set (map fst (mp (puts kvs)))" by force
    then show False using gd(2) \<open>go_eq k' k\<close> unfolding IH(2) by blast
  qed
  then have absent: "map_lookup (mp (puts kvs)) k = None" by (simp only: map_lookup_None)
  have "map fst (mp (Put (puts kvs) k v)) = map fst (mp (puts kvs)) @ [k]"
    unfolding Put_absent [OF absent] by simp
  then show ?case
    unfolding p puts_snoc
    using IH entries_Put_absent [OF IH(1) absent] Map_inv_Put [OF IH(1)] by simp
qed

section \<open>The claims\<close>

text \<open>
  In the claims below a map state \<open>m\<close> is any state reached from \<^verbatim>\<open>New()\<close> by a
  sequence of \<^verbatim>\<open>Put\<close>, \<^verbatim>\<open>Delete\<close>, \<^verbatim>\<open>GetOrPut\<close> and \<^verbatim>\<open>GetAndDelete\<close> calls,
  \<open>m = run ops\<close>; a key is present when the index lookup finds it; and the calls a
  traversal makes are read off the recording callback \<open>visit\<close>.
\<close>

text \<open>
  Claim C1: \<^verbatim>\<open>GetAndDelete(k)\<close> on a present key returns the value stored for \<open>k\<close>.
  The code does not: after \<^verbatim>\<open>Put("b", 2)\<close> on a new map, \<^verbatim>\<open>Get("b")\<close> returns \<open>2\<close>,
  and \<^verbatim>\<open>GetAndDelete("b")\<close> returns the whole element \<^verbatim>\<open>mapElement{"b", 2}\<close>. It
  does so on every present key (lemma \<open>GetAndDelete_present\<close>).
\<close>

theorem GetAndDelete_returns_element:
  "Get (Put New (Atom (Str ''b'')) (Atom (Num 2))) (Atom (Str ''b'')) = Inr (Atom (Num 2), True) \<and>
   snd (GetAndDelete (Put New (Atom (Str ''b'')) (Atom (Num 2))) (Atom (Str ''b''))) =
     (MapElement (Atom (Str ''b'')) (Atom (Num 2)), True) \<and>
   snd (GetAndDelete (Put New (Atom (Str ''b'')) (Atom (Num 2))) (Atom (Str ''b''))) \<noteq>
     (Atom (Num 2), True)"
  by (simp add: eval_defs)

text \<open>
  Claim C2, as amended: after \<^verbatim>\<open>Put\<close> calls with pairwise different keys on a new map,
  \<^verbatim>\<open>OrderedRange\<close> calls the callback once per entry in insertion order, the key
  inserted first being visited first and the key inserted last being visited last.
\<close>

theorem OrderedRange_insertion_order:
  "distinct (map fst kvs) \<Longrightarrow> OrderedRange (puts kvs) visit [] = Inr kvs"
  using puts_inv [OF distinct_imp_go_distinct, of kvs] by (simp add: OrderedRange_visit)

theorem OrderedRange_insertion_order_witness:
  "distinct (map fst [(Atom (Str ''a''), Atom (Num 1)), (Atom (Str ''b''), Atom (Num 2))]) \<and>
   OrderedRange (puts [(Atom (Str ''a''), Atom (Num 1)), (Atom (Str ''b''), Atom (Num 2))]) visit [] =
   Inr [(Atom (Str ''a''), Atom (Num 1)), (Atom (Str ''b''), Atom (Num 2))]"
  using OrderedRange_insertion_order
    [of "[(Atom (Str ''a''), Atom (Num 1)), (Atom (Str ''b''), Atom (Num 2))]"]
  by simp

text \<open>
  The claim as it was stated, reverse insertion order, fails after \<^verbatim>\<open>Put("a", 1)\<close>,
  \<^verbatim>\<open>Put("b", 2)\<close>: \<open>"a"\<close> is visited first.
\<close>

theorem OrderedRange_not_reversed:
  "OrderedRange (puts [(Atom (Str ''a''), Atom (Num 1)), (Atom (Str ''b''), Atom (Num 2))]) visit [] =
     Inr [(Atom (Str ''a''), Atom (Num 1)), (Atom (Str ''b''), Atom (Num 2))] \<and>
   OrderedRange (puts [(Atom (Str ''a''), Atom (Num 1)), (Atom (Str ''b''), Atom (Num 2))]) visit [] \<noteq>
     Inr (rev [(Atom (Str ''a''), Atom (Num 1)), (Atom (Str ''b''), Atom (Num 2))])"
  by (simp add: eval_defs)

text \<open>
  Claim C3, as amended: on an absent key \<^verbatim>\<open>GetOrPut(k, v)\<close> links a new element
  holding \<open>(k, v)\<close> at the front of the list, indexes it, and returns \<open>(v, false)\<close>; on a
  present key it overwrites the pair held by the key's element with \<open>(k, v)\<close>, changes
  nothing else, and returns \<open>(v, true)\<close>. In both cases the value returned is the argument
  \<open>v\<close>, whatever was stored before. \<^verbatim>\<open>Get(k)\<close> afterwards returns \<open>(v, true)\<close> when
  \<open>k\<close> is \<^verbatim>\<open>==\<close> to itself; when it is not, as for a float NaN, the key is never found
  and \<^verbatim>\<open>Get(k)\<close> returns \<open>(nil, false)\<close>.
\<close>

theorem GetOrPut_contract:
  assumes "m = run ops"
  shows "(map_lookup (mp m) k = None \<longrightarrow>
            (\<exists>e. e \<notin> set (elems (dll m)) \<and>
                 GetOrPut m k v =
                   (\<lparr>mp = mp m @ [(k, e)],
                     dll = \<lparr>elems = e # elems (dll m),
                             Value = (Value (dll m))(e := MapElement k v),
                             allocated = Suc (allocated (dll m))\<rparr>\<rparr>, v, False))) \<and>
         (\<forall>e. map_lookup (mp m) k = Some e \<longrightarrow>
            GetOrPut m k v =
              (\<lparr>mp = mp m,
                dll = \<lparr>elems = elems (dll m),
                        Value = (Value (dll m))(e := MapElement k v),
                        allocated = allocated (dll m)\<rparr>\<rparr>, v, True)) \<and>
         fst (snd (GetOrPut m k v)) = v \<and>
         (go_eq k k \<longrightarrow> Get (fst (GetOrPut m k v)) k = Inr (v, True)) \<and>
         (\<not> go_eq k k \<longrightarrow> Get (fst (GetOrPut m k v)) k = Inr (NIL, False))"
proof -
  have inv: "Map_inv m" using assms by (simp add: Map_inv_run)
  have "\<exists>e. e \<notin> set (elems (dll m)) \<and>
             GetOrPut m k v =
               (\<lparr>mp = mp m @ [(k, e)],
                 dll = \<lparr>elems = e # elems (dll m),
                         Value = (Value (dll m))(e := MapElement k v),
                         allocated = Suc (allocated (dll m))\<rparr>\<rparr>, v, False)"
    if "map_lookup (mp m) k = None"
    using Map_inv_fresh [OF inv] GetOrPut_absent [OF that] Put_absent [OF that]
    by (intro exI [of _ "allocated (dll m)"]) simp
  moreover have "GetOrPut m k v =
              (\<lparr>mp = mp m,
                dll = \<lparr>elems = elems (dll m),
                        Value = (Value (dll m))(e := MapElement k v),
                        allocated = allocated (dll m)\<rparr>\<rparr>, v, True)"
    if "map_lookup (mp m) k = Some e" for e
    using GetOrPut_present [OF that] Put_present [OF that] by simp
  moreover have "fst (snd (GetOrPut m k v)) = v"
    by (cases "map_lookup (mp m) k") (simp_all add: GetOrPut_absent GetOrPut_present)
  moreover have "Get (fst (GetOrPut m k v)) k = Inr (v, True)" if "go_eq k k"
    using that by (simp add: GetOrPut_state Get_Put_same)
  moreover have "Get (fst (GetOrPut m k v)) k = Inr (NIL, False)" if "\<not> go_eq k k"
    using that by (rule Get_irreflexive)
  ultimately show ?thesis by blast
qed

theorem GetOrPut_contract_witness:
  "map_lookup (mp (run [])) (Atom (Str ''a'')) = None \<and>
   snd (GetOrPut (run []) (Atom (Str ''a'')) (Atom (Num 1))) = (Atom (Num 1), False) \<and>
   map_lookup (mp (run [OpPut (Atom (Str ''a'')) (Atom (Num 1))])) (Atom (Str ''a'')) = Some 0 \<and>
   go_eq (Atom (Str ''a'')) (Atom (Str ''a'')) \<and>
   Get (run [OpPut (Atom (Str ''a'')) (Atom (Num 1))]) (Atom (Str ''a'')) = Inr (Atom (Num 1), True) \<and>
   snd (GetOrPut (run [OpPut (Atom (Str ''a'')) (Atom (Num 1))]) (Atom (Str ''a'')) (Atom (Num 7))) =
     (Atom (Num 7), True) \<and>
   Get (fst (GetOrPut (run [OpPut (Atom (Str ''a'')) (Atom (Num 1))]) (Atom (Str ''a'')) (Atom (Num 7))))
     (Atom (Str ''a'')) = Inr (Atom (Num 7), True) \<and>
   \<not> go_eq (NaN :: basic any) NaN \<and>
   Get (fst (GetOrPut (run [OpPut (Atom (Str ''a'')) (Atom (Num 1))]) NaN (Atom (Num 7)))) NaN =
     Inr (NIL, False)"
proof -
  have absent: "map_lookup (mp (run [])) (Atom (Str ''a'')) = None"
    by (simp add: eval_defs)
  have present: "map_lookup (mp (run [OpPut (Atom (Str ''a'')) (Atom (Num 1))])) (Atom (Str ''a'')) = Some 0"
    by (simp add: eval_defs)
  have old: "Get (run [OpPut (Atom (Str ''a'')) (Atom (Num 1))]) (Atom (Str ''a'')) = Inr (Atom (Num 1), True)"
    by (simp add: eval_defs)
  have same: "go_eq (Atom (Str ''a'')) (Atom (Str ''a''))" and irrefl: "\<not> go_eq (NaN :: basic any) NaN"
    by simp_all
  show ?thesis
    using absent present old same irrefl
      GetOrPut_contract [OF refl, of "[]" "Atom (Str ''a'')" "Atom (Num 1)"]
      GetOrPut_contract [OF refl, of "[OpPut (Atom (Str ''a'')) (Atom (Num 1))]" "Atom (Str ''a'')" "Atom (Num 7)"]
      GetOrPut_contract [OF refl, of "[OpPut (Atom (Str ''a'')) (Atom (Num 1))]" NaN "Atom (Num 7)"]
    by auto
qed

text \<open>
  The claim as it was stated, \<^verbatim>\<open>Get(k)\<close> returns \<open>v\<close> after \<^verbatim>\<open>GetOrPut(k, v)\<close> for
  every key, fails for a NaN key on a new map: the entry is added and never found.
\<close>

theorem GetOrPut_NaN_not_found:
  "snd (GetOrPut (New :: basic Map) NaN (Atom (Num 3))) = (Atom (Num 3), False) \<and>
   Get (fst (GetOrPut (New :: basic Map) NaN (Atom (Num 3)))) NaN = Inr (NIL, False) \<and>
   Get (fst (GetOrPut (New :: basic Map) NaN (Atom (Num 3)))) NaN \<noteq> Inr (Atom (Num 3), True)"
  by (simp add: eval_defs)

text \<open>
  Claim C4: the example \<^verbatim>\<open>Put("a", 1)\<close>, \<^verbatim>\<open>Put("b", 2)\<close>, \<^verbatim>\<open>Put("a", 3)\<close> on a new
  map. The length is 2 and \<^verbatim>\<open>OrderedRange\<close> visits \<open>("a", 3)\<close>, then \<open>("b", 2)\<close>, as
  claimed; \<^verbatim>\<open>GetAndDelete("b")\<close> leaves length 1, as claimed, and returns the element
  \<^verbatim>\<open>mapElement{"b", 2}\<close> where the claim has \<open>2\<close>.
\<close>

theorem spec_example:
  "Length (puts [(Atom (Str ''a''), Atom (Num 1)), (Atom (Str ''b''), Atom (Num 2)),
                 (Atom (Str ''a''), Atom (Num 3))]) = 2 \<and>
   OrderedRange (puts [(Atom (Str ''a''), Atom (Num 1)), (Atom (Str ''b''), Atom (Num 2)),
                 (Atom (Str ''a''), Atom (Num 3))]) visit [] =
     Inr [(Atom (Str ''a''), Atom (Num 3)), (Atom (Str ''b''), Atom (Num 2))] \<and>
   snd (GetAndDelete (puts [(Atom (Str ''a''), Atom (Num 1)), (Atom (Str ''b''), Atom (Num 2)),
                 (Atom (Str ''a''), Atom (Num 3))]) (Atom (Str ''b''))) =
     (MapElement (Atom (Str ''b'')) (Atom (Num 2)), True) \<and>
   snd (GetAndDelete (puts [(Atom (Str ''a''), Atom (Num 1)), (Atom (Str ''b''), Atom (Num 2)),
                 (Atom (Str ''a''), Atom (Num 3))]) (Atom (Str ''b''))) \<noteq>
     (Atom (Num 2), True) \<and>
   Length (fst (GetAndDelete (puts [(Atom (Str ''a''), Atom (Num 1)), (Atom (Str ''b''), Atom (Num 2)),
                 (Atom (Str ''a''), Atom (Num 3))]) (Atom (Str ''b'')))) = 1"
  by (simp add: eval_defs)

text \<open>
  Claim C5: \<^verbatim>\<open>Put(k, v2)\<close> on a present key leaves the index and the order of the list
  as they are and overwrites the pair of the key's element, for every \<open>v2\<close>, the old value
  included; \<^verbatim>\<open>OrderedRange\<close> then makes the same calls as before, in the same order, but
  for the value passed with \<open>k\<close>. On an absent key \<^verbatim>\<open>Put\<close> links a new element at the front
  of the list, which \<^verbatim>\<open>OrderedRange\<close> visits after all the others.
\<close>

theorem Put_keeps_position:
  assumes "m = run ops"
  shows "\<exists>tr. OrderedRange m visit [] = Inr tr \<and>
           (\<forall>e. map_lookup (mp m) k = Some e \<longrightarrow>
              mp (Put m k v2) = mp m \<and>
              elems (dll (Put m k v2)) = elems (dll m) \<and>
              Value (dll (Put m k v2)) = (Value (dll m))(e := MapElement k v2) \<and>
              OrderedRange (Put m k v2) visit [] =
                Inr (map (\<lambda>(k', x). if k' = k then (k, v2) else (k', x)) tr) \<and>
              map fst (map (\<lambda>(k', x). if k' = k then (k, v2) else (k', x)) tr) = map fst tr) \<and>
           (map_lookup (mp m) k = None \<longrightarrow>
              (\<exists>e. e \<notin> set (elems (dll m)) \<and>
                   mp (Put m k v2) = mp m @ [(k, e)] \<and>
                   elems (dll (Put m k v2)) = e # elems (dll m)) \<and>
              OrderedRange (Put m k v2) visit [] = Inr (tr @ [(k, v2)]))"
proof -
  have inv: "Map_inv m" using assms by (simp add: Map_inv_run)
  have inv': "Map_inv (Put m k v2)" using inv by (rule Map_inv_Put)
  have keys: "map fst (map (\<lambda>(k', x). if k' = k then (k, v2) else (k', x)) tr) = map fst tr"
    for tr :: "('a any \<times> 'a any) list"
    by (induction tr) auto
  have "mp (Put m k v2) = mp m \<and>
        elems (dll (Put m k v2)) = elems (dll m) \<and>
        Value (dll (Put m k v2)) = (Value (dll m))(e := MapElement k v2) \<and>
        OrderedRange (Put m k v2) visit [] =
          Inr (map (\<lambda>(k', x). if k' = k then (k, v2) else (k', x)) (entries m))"
    if "map_lookup (mp m) k = Some e" for e
    using OrderedRange_visit [OF inv'] entries_Put_present [OF inv that]
    by (simp add: Put_present [OF that])
  moreover have "(\<exists>e. e \<notin> set (elems (dll m)) \<and>
                   mp (Put m k v2) = mp m @ [(k, e)] \<and>
                   elems (dll (Put m k v2)) = e # elems (dll m)) \<and>
              OrderedRange (Put m k v2) visit [] = Inr (entries m @ [(k, v2)])"
    if "map_lookup (mp m) k = None"
  proof
    show "\<exists>e. e \<notin> set (elems (dll m)) \<and>
                   mp (Put m k v2) = mp m @ [(k, e)] \<and>
                   elems (dll (Put m k v2)) = e # elems (dll m)"
      using Map_inv_fresh [OF inv]
      by (intro exI [of _ "allocated (dll m)"]) (simp add: Put_absent [OF that])
    show "OrderedRange (Put m k v2) visit [] = Inr (entries m @ [(k, v2)])"
      using OrderedRange_visit [OF inv'] entries_Put_absent [OF inv that] by simp
  qed
  ultimately show ?thesis
    using OrderedRange_visit [OF inv] keys [of "entries m"]
    by (intro exI [of _ "entries m"]) blast
qed

theorem Put_keeps_position_witness:
  "map_lookup (mp (run [OpPut (Atom (Str ''a'')) (Atom (Num 1)), OpPut (Atom (Str ''b'')) (Atom (Num 2))])) (Atom (Str ''a'')) = Some 0 \<and>
   map_lookup (mp (run [OpPut (Atom (Str ''a'')) (Atom (Num 1)), OpPut (Atom (Str ''b'')) (Atom (Num 2))])) (Atom (Str ''c'')) = None \<and>
   OrderedRange (run [OpPut (Atom (Str ''a'')) (Atom (Num 1)), OpPut (Atom (Str ''b'')) (Atom (Num 2))]) visit [] =
     Inr [(Atom (Str ''a''), Atom (Num 1)), (Atom (Str ''b''), Atom (Num 2))] \<and>
   OrderedRange (Put (run [OpPut (Atom (Str ''a'')) (Atom (Num 1)), OpPut (Atom (Str ''b'')) (Atom (Num 2))]) (Atom (Str ''a'')) (Atom (Num 3))) visit [] =
     Inr [(Atom (Str ''a''), Atom (Num 3)), (Atom (Str ''b''), Atom (Num 2))] \<and>
   OrderedRange (Put (run [OpPut (Atom (Str ''a'')) (Atom (Num 1)), OpPut (Atom (Str ''b'')) (Atom (Num 2))]) (Atom (Str ''c'')) (Atom (Num 3))) visit [] =
     Inr [(Atom (Str ''a''), Atom (Num 1)), (Atom (Str ''b''), Atom (Num 2)),
          (Atom (Str ''c''), Atom (Num 3))]"
proof -
  let ?ops = "[OpPut (Atom (Str ''a'')) (Atom (Num 1)), OpPut (Atom (Str ''b'')) (Atom (Num 2))]"
  have present: "map_lookup (mp (run ?ops)) (Atom (Str ''a'')) = Some 0"
    by (simp add: eval_defs)
  have absent: "map_lookup (mp (run ?ops)) (Atom (Str ''c'')) = None"
    by (simp add: eval_defs)
  have before: "OrderedRange (run ?ops) visit [] =
      Inr [(Atom (Str ''a''), Atom (Num 1)), (Atom (Str ''b''), Atom (Num 2))]"
    by (simp add: eval_defs)
  show ?thesis
    using present absent before
      Put_keeps_position [OF refl, of ?ops "Atom (Str ''a'')" "Atom (Num 3)"]
      Put_keeps_position [OF refl, of ?ops "Atom (Str ''c'')" "Atom (Num 3)"]
    by auto
qed

text \<open>
  Claim C6, as amended: for every key \<open>k\<close> that is \<^verbatim>\<open>==\<close> to itself, \<^verbatim>\<open>Get(k)\<close>
  right after \<^verbatim>\<open>Put(k, v)\<close> returns \<open>(v, true)\<close>, in every state; for a key that is not
  \<^verbatim>\<open>==\<close> to itself, as a float NaN, it returns \<open>(nil, false)\<close>; \<^verbatim>\<open>Get(k)\<close> on a key
  that the index lookup does not find returns \<open>(nil, false)\<close>. The method assigns to no
  field, so \<open>Get\<close> is a function of the state and yields no successor state.
\<close>

theorem Get_after_Put:
  "(go_eq k k \<longrightarrow> Get (Put m k v) k = Inr (v, True)) \<and>
   (\<not> go_eq k k \<longrightarrow> Get (Put m k v) k = Inr (NIL, False)) \<and>
   (map_lookup (mp m) k = None \<longrightarrow> Get m k = Inr (NIL, False))"
  by (simp add: Get_Put_same Get_absent Get_irreflexive)

theorem Get_after_Put_witness:
  "go_eq (Atom (Str ''b'')) (Atom (Str ''b'')) \<and>
   map_lookup (mp (run [OpPut (Atom (Str ''a'')) (Atom (Num 1))])) (Atom (Str ''b'')) = None \<and>
   Get (run [OpPut (Atom (Str ''a'')) (Atom (Num 1))]) (Atom (Str ''b'')) = Inr (NIL, False) \<and>
   Get (Put (run [OpPut (Atom (Str ''a'')) (Atom (Num 1))]) (Atom (Str ''b'')) (Atom (Num 2)))
       (Atom (Str ''b'')) = Inr (Atom (Num 2), True) \<and>
   \<not> go_eq (NaN :: basic any) NaN \<and>
   Get (Put (run [OpPut (Atom (Str ''a'')) (Atom (Num 1))]) NaN (Atom (Num 2))) NaN =
     Inr (NIL, False)"
proof -
  have absent: "map_lookup (mp (run [OpPut (Atom (Str ''a'')) (Atom (Num 1))])) (Atom (Str ''b'')) = None"
    by (simp add: eval_defs)
  have same: "go_eq (Atom (Str ''b'')) (Atom (Str ''b''))" and irrefl: "\<not> go_eq (NaN :: basic any) NaN"
    by simp_all
  show ?thesis
    using absent same irrefl
      Get_after_Put [of "Atom (Str ''b'')" "run [OpPut (Atom (Str ''a'')) (Atom (Num 1))]" "Atom (Num 2)"]
      Get_after_Put [of NaN "run [OpPut (Atom (Str ''a'')) (Atom (Num 1))]" "Atom (Num 2)"]
    by simp
qed

text \<open>
  The claim as it was stated, for every key, fails for a NaN key: after
  \<^verbatim>\<open>Put(NaN, 1)\<close> on a new map \<^verbatim>\<open>Get(NaN)\<close> returns \<open>(nil, false)\<close>.
\<close>

theorem Get_after_Put_NaN:
  "Get (Put (New :: basic Map) NaN (Atom (Num 1))) NaN = Inr (NIL, False) \<and>
   Get (Put (New :: basic Map) NaN (Atom (Num 1))) NaN \<noteq> Inr (Atom (Num 1), True)"
  by (simp add: eval_defs)

text \<open>
  Claim C7: \<^verbatim>\<open>Delete(k)\<close> returns \<open>true\<close> exactly when \<open>k\<close> is present. Then the key's
  element is unlinked from the list and the key's entry is removed from the index, the
  other keys keeping theirs, \<^verbatim>\<open>Get(k)\<close> returns not found, and \<^verbatim>\<open>Length()\<close> is one
  less. On an absent key the state is returned unchanged with \<open>false\<close>.
\<close>

theorem Delete_contract:
  assumes "m = run ops"
  shows "(snd (Delete m k) \<longleftrightarrow> map_lookup (mp m) k \<noteq> None) \<and>
         (\<forall>e. map_lookup (mp m) k = Some e \<longrightarrow>
            e \<in> set (elems (dll m)) \<and>
            elems (dll (fst (Delete m k))) = remove1 e (elems (dll m)) \<and>
            e \<notin> set (elems (dll (fst (Delete m k)))) \<and>
            set (mp (fst (Delete m k))) = set (mp m) - {(k, e)} \<and>
            map_lookup (mp (fst (Delete m k))) k = None \<and>
            (\<forall>k'. \<not> go_eq k' k \<longrightarrow>
               map_lookup (mp (fst (Delete m k))) k' = map_lookup (mp m) k') \<and>
            Get (fst (Delete m k)) k = Inr (NIL, False) \<and>
            Length (fst (Delete m k)) = Length m - 1) \<and>
         (map_lookup (mp m) k = None \<longrightarrow> Delete m k = (m, False))"
proof -
  have inv: "Map_inv m" using assms by (simp add: Map_inv_run)
  have "snd (Delete m k) \<longleftrightarrow> map_lookup (mp m) k \<noteq> None"
    by (cases "map_lookup (mp m) k") (simp_all add: Delete_absent Delete_present)
  moreover have "e \<in> set (elems (dll m)) \<and>
            elems (dll (fst (Delete m k))) = remove1 e (elems (dll m)) \<and>
            e \<notin> set (elems (dll (fst (Delete m k)))) \<and>
            set (mp (fst (Delete m k))) = set (mp m) - {(k, e)} \<and>
            map_lookup (mp (fst (Delete m k))) k = None \<and>
            (\<forall>k'. \<not> go_eq k' k \<longrightarrow>
               map_lookup (mp (fst (Delete m k))) k' = map_lookup (mp m) k') \<and>
            Get (fst (Delete m k)) k = Inr (NIL, False) \<and>
            Length (fst (Delete m k)) = Length m - 1"
    if "map_lookup (mp m) k = Some e" for e
  proof -
    have mem: "e \<in> set (elems (dll m))" using Map_inv_key [OF inv that] by simp
    have d: "distinct (elems (dll m))" using inv by (simp add: Map_inv_def)
    have gone: "map_lookup (mp (fst (Delete m k))) k = None"
      by (simp add: Delete_present [OF that] map_lookup_delete_same)
    have "Get (fst (Delete m k)) k = Inr (NIL, False)"
      using gone by (rule Get_absent)
    then show ?thesis
      using mem d gone Length_Delete_present [OF inv that] map_delete_present [OF inv that]
      by (simp add: Delete_present [OF that] map_lookup_delete_other)
  qed
  moreover have "Delete m k = (m, False)" if "map_lookup (mp m) k = None"
    using that by (rule Delete_absent)
  ultimately show ?thesis by blast
qed

theorem Delete_contract_witness:
  "map_lookup (mp (run [OpPut (Atom (Str ''a'')) (Atom (Num 1)), OpPut (Atom (Str ''b'')) (Atom (Num 2))])) (Atom (Str ''a'')) = Some 0 \<and>
   map_lookup (mp (run [OpPut (Atom (Str ''a'')) (Atom (Num 1)), OpPut (Atom (Str ''b'')) (Atom (Num 2))])) (Atom (Str ''c'')) = None \<and>
   Length (run [OpPut (Atom (Str ''a'')) (Atom (Num 1)), OpPut (Atom (Str ''b'')) (Atom (Num 2))]) = 2 \<and>
   snd (Delete (run [OpPut (Atom (Str ''a'')) (Atom (Num 1)), OpPut (Atom (Str ''b'')) (Atom (Num 2))]) (Atom (Str ''a''))) \<and>
   Length (fst (Delete (run [OpPut (Atom (Str ''a'')) (Atom (Num 1)), OpPut (Atom (Str ''b'')) (Atom (Num 2))]) (Atom (Str ''a'')))) = 1 \<and>
   Get (fst (Delete (run [OpPut (Atom (Str ''a'')) (Atom (Num 1)), OpPut (Atom (Str ''b'')) (Atom (Num 2))]) (Atom (Str ''a'')))) (Atom (Str ''a'')) = Inr (NIL, False) \<and>
   Delete (run [OpPut (Atom (Str ''a'')) (Atom (Num 1)), OpPut (Atom (Str ''b'')) (Atom (Num 2))]) (Atom (Str ''c'')) = (run [OpPut (Atom (Str ''a'')) (Atom (Num 1)), OpPut (Atom (Str ''b'')) (Atom (Num 2))], False)"
proof -
  let ?ops = "[OpPut (Atom (Str ''a'')) (Atom (Num 1)), OpPut (Atom (Str ''b'')) (Atom (Num 2))]"
  have present: "map_lookup (mp (run ?ops)) (Atom (Str ''a'')) = Some 0"
    by (simp add: eval_defs)
  have absent: "map_lookup (mp (run ?ops)) (Atom (Str ''c'')) = None"
    by (simp add: eval_defs)
  have len: "Length (run ?ops) = 2"
    by (simp add: eval_defs)
  show ?thesis
    using present absent len
      Delete_contract [OF refl, of ?ops "Atom (Str ''a'')"]
      Delete_contract [OF refl, of ?ops "Atom (Str ''c'')"]
    by auto
qed



text \<open>
  Claim C10: \<^verbatim>\<open>Put(k, v)\<close> and \<^verbatim>\<open>GetOrPut(k, v)\<close> add one to \<^verbatim>\<open>Length()\<close> when
  \<open>k\<close> is absent and leave it unchanged when \<open>k\<close> is present; no index entry is removed,
  and every other key keeps its element in the index and the result of its \<^verbatim>\<open>Get\<close>.
\<close>

theorem Put_GetOrPut_Length:
  assumes "m = run ops"
  shows "Length (Put m k v) = (if map_lookup (mp m) k = None then Length m + 1 else Length m) \<and>
         Length (fst (GetOrPut m k v)) =
           (if map_lookup (mp m) k = None then Length m + 1 else Length m) \<and>
         set (mp m) \<subseteq> set (mp (Put m k v)) \<and>
         set (mp m) \<subseteq> set (mp (fst (GetOrPut m k v))) \<and>
         (\<forall>k'. \<not> go_eq k' k \<longrightarrow>
            map_lookup (mp (Put m k v)) k' = map_lookup (mp m) k' \<and>
            Get (Put m k v) k' = Get m k' \<and>
            map_lookup (mp (fst (GetOrPut m k v))) k' = map_lookup (mp m) k' \<and>
            Get (fst (GetOrPut m k v)) k' = Get m k') \<and>
         (\<forall>k'. k' \<noteq> k \<longrightarrow>
            map_lookup (mp (Put m k v)) k' = map_lookup (mp m) k' \<and>
            Get (Put m k v) k' = Get m k' \<and>
            map_lookup (mp (fst (GetOrPut m k v))) k' = map_lookup (mp m) k' \<and>
            Get (fst (GetOrPut m k v)) k' = Get m k')"
proof -
  have inv: "Map_inv m" using assms by (simp add: Map_inv_run)
  have keep: "set (mp m) \<subseteq> set (mp (Put m k v))"
    by (cases "map_lookup (mp m) k") (auto simp: Put_absent Put_present)
  have other: "map_lookup (mp (Put m k v)) k' = map_lookup (mp m) k' \<and>
               Get (Put m k v) k' = Get m k'" if "\<not> go_eq k' k" for k'
    using that map_lookup_Put_other Get_Put_other [OF inv] by blast
  have "\<not> go_eq k' k" if "k' \<noteq> k" for k'
    using that go_eq_imp_eq by blast
  then show ?thesis
    using keep other by (simp add: Length_Put GetOrPut_state)
qed

theorem Put_GetOrPut_Length_witness:
  "map_lookup (mp (run [OpPut (Atom (Str ''a'')) (Atom (Num 1))])) (Atom (Str ''b'')) = None \<and>
   map_lookup (mp (run [OpPut (Atom (Str ''a'')) (Atom (Num 1))])) (Atom (Str ''a'')) = Some 0 \<and>
   Length (run [OpPut (Atom (Str ''a'')) (Atom (Num 1))]) = 1 \<and>
   Length (Put (run [OpPut (Atom (Str ''a'')) (Atom (Num 1))]) (Atom (Str ''b'')) (Atom (Num 2))) = 2 \<and>
   Length (fst (GetOrPut (run [OpPut (Atom (Str ''a'')) (Atom (Num 1))]) (Atom (Str ''a'')) (Atom (Num 5)))) = 1 \<and>
   Get (run [OpPut (Atom (Str ''a'')) (Atom (Num 1))]) (Atom (Str ''a'')) = Inr (Atom (Num 1), True) \<and>
   Get (Put (run [OpPut (Atom (Str ''a'')) (Atom (Num 1))]) (Atom (Str ''b'')) (Atom (Num 2)))
       (Atom (Str ''a'')) = Inr (Atom (Num 1), True)"
proof -
  let ?ops = "[OpPut (Atom (Str ''a'')) (Atom (Num 1))]"
  have absent: "map_lookup (mp (run ?ops)) (Atom (Str ''b'')) = None"
    by (simp add: eval_defs)
  have present: "map_lookup (mp (run ?ops)) (Atom (Str ''a'')) = Some 0"
    by (simp add: eval_defs)
  have len: "Length (run ?ops) = 1"
    by (simp add: eval_defs)
  have old: "Get (run ?ops) (Atom (Str ''a'')) = Inr (Atom (Num 1), True)"
    by (simp add: eval_defs)
  have other: "\<not> go_eq (Atom (Str ''a'')) (Atom (Str ''b''))"
    by simp
  show ?thesis
    using absent present len old other
      Put_GetOrPut_Length [OF refl, of ?ops "Atom (Str ''b'')" "Atom (Num 2)"]
      Put_GetOrPut_Length [OF refl, of ?ops "Atom (Str ''a'')" "Atom (Num 5)"]
    by auto
qed

end
